theory Spec2Isabelle
  imports Main "HOL-Library.Sublist" "HOL-Library.AList" "HOL-Library.Char_ord"
    "HOL-Library.List_Lexorder"
begin

section \<open>Strings\<close>

text \<open>
  The script \<^verbatim>\<open>analyze_dependencies.py\<close> works on Python \<^verbatim>\<open>str\<close> values. A string is
  modelled as a \<^typ>\<open>string\<close>, each character standing for one code point below 256.
  Python compares strings code point by code point, the shorter of two strings first
  when one is a prefix of the other: that is the lexicographic order on character lists.
\<close>

text \<open>\<^verbatim>\<open>str.lower()\<close> on code points below 256: the letters A..Z and the capital letters
  of the Latin-1 supplement (0xC0..0xDE without the multiplication sign 0xD7) move up
  by 32, every other code point stays.\<close>

definition lower_char :: "char \<Rightarrow> char" where
  "lower_char c =
     (let n = (of_char c :: nat) in
      if (65 \<le> n \<and> n \<le> 90) \<or> (192 \<le> n \<and> n \<le> 214) \<or> (216 \<le> n \<and> n \<le> 222)
      then char_of (n + 32) else c)"

definition lower :: "string \<Rightarrow> string" where
  "lower s = map lower_char s"

text \<open>\<^verbatim>\<open>sub in s\<close>: \<^verbatim>\<open>sub\<close> occurs in \<^verbatim>\<open>s\<close> as a contiguous substring.\<close>

fun contains :: "string \<Rightarrow> string \<Rightarrow> bool" where
  "contains sub [] = (sub = [])"
| "contains sub (c # cs) = (prefix sub (c # cs) \<or> contains sub cs)"

text \<open>\<^verbatim>\<open>s.startswith(p)\<close>.\<close>

definition startswith :: "string \<Rightarrow> string \<Rightarrow> bool" where
  "startswith s p = prefix p s"

text \<open>\<^verbatim>\<open>str.isspace()\<close> on one code point below 256: tab, line feed, vertical tab, form
  feed, carriage return, the four separators 0x1C..0x1F, space, next line 0x85 and the
  no-break space 0xA0.\<close>

definition is_space :: "char \<Rightarrow> bool" where
  "is_space c =
     (let n = (of_char c :: nat) in
      (9 \<le> n \<and> n \<le> 13) \<or> (28 \<le> n \<and> n \<le> 32) \<or> n = 133 \<or> n = 160)"

text \<open>\<^verbatim>\<open>s.strip()\<close>: leading and trailing whitespace removed.\<close>

definition strip :: "string \<Rightarrow> string" where
  "strip s = rev (dropWhile is_space (rev (dropWhile is_space s)))"

text \<open>\<^verbatim>\<open>s.split('\n')\<close>: the pieces between line feeds; the empty string gives one
  empty piece.\<close>

fun split_nl :: "string \<Rightarrow> string list" where
  "split_nl [] = [[]]"
| "split_nl (c # cs) =
     (if c = CHR 0x0A then [] # split_nl cs
      else (case split_nl cs of [] \<Rightarrow> [[c]] | r # rs \<Rightarrow> (c # r) # rs))"

section \<open>Categories\<close>

text \<open>The function \<^verbatim>\<open>categorize\<close> of the script, branch by branch. The substring tests
  look at \<^verbatim>\<open>pkg.lower()\<close>; the prefix test of the first branch and the membership test
  of the third look at \<^verbatim>\<open>pkg\<close> itself.\<close>

definition categorize :: "string \<Rightarrow> string" where
  "categorize pkg =
     (if contains ''python'' (lower pkg) \<or> startswith pkg ''python-'' then ''PYTHON''
      else if contains ''perl'' (lower pkg) then ''PERL''
      else if pkg \<in> set [''git'', ''openssh'', ''rsync'', ''sudo'', ''which'', ''diffutils'']
        then ''DEVELOPMENT_TOOLS''
      else if contains ''bluez'' (lower pkg) then ''BLUETOOTH''
      else if contains ''pipewire'' (lower pkg) \<or> contains ''alsa'' (lower pkg) then ''AUDIO''
      else if contains ''device-mapper'' (lower pkg) \<or> contains ''cryptsetup'' (lower pkg)
        then ''STORAGE''
      else if contains ''xdg'' (lower pkg) \<or> contains ''desktop'' (lower pkg) then ''DESKTOP''
      else if contains ''kde'' (lower pkg) \<or> contains ''kio'' (lower pkg)
              \<or> contains ''plasma'' (lower pkg) then ''KDE''
      else if contains ''gtk'' (lower pkg) \<or> contains ''qt'' (lower pkg) then ''GUI_LIBS''
      else if contains ''gnome-keyring'' (lower pkg) then ''SECURITY''
      else if contains ''jdk'' (lower pkg) \<or> contains ''java'' (lower pkg) then ''JAVA''
      else if contains ''openxr'' (lower pkg) then ''VR''
      else if contains ''e2fsprogs'' (lower pkg) \<or> contains ''dosfstools'' (lower pkg)
              \<or> contains ''mtools'' (lower pkg) then ''FILESYSTEM''
      else if contains ''systemd'' (lower pkg) then ''SYSTEM''
      else if contains ''texinfo'' (lower pkg) \<or> contains ''hwinfo'' (lower pkg)
        then ''SYSTEM_INFO''
      else if contains ''unzip'' (lower pkg) then ''ARCHIVE''
      else ''OTHER'')"

text \<open>The list \<^verbatim>\<open>cat_order\<close> of the output loop.\<close>

definition cat_order :: "string list" where
  "cat_order =
     [''PYTHON'', ''PERL'', ''DEVELOPMENT_TOOLS'', ''BLUETOOTH'', ''AUDIO'',
      ''STORAGE'', ''DESKTOP'', ''KDE'', ''GUI_LIBS'', ''SECURITY'', ''JAVA'',
      ''VR'', ''FILESYSTEM'', ''SYSTEM'', ''SYSTEM_INFO'', ''ARCHIVE'', ''OTHER'']"

section \<open>Dictionaries\<close>

text \<open>A Python \<^verbatim>\<open>dict\<close> keeps its keys in insertion order, so it is an association list
  with distinct keys: \<^const>\<open>map_of\<close> looks a key up, \<^const>\<open>AList.update\<close> stores a value (in
  place when the key is there, at the end otherwise). Subscripting a
  \<^verbatim>\<open>defaultdict(list)\<close> or a \<^verbatim>\<open>defaultdict(lambda: defaultdict(list))\<close> at a missing key
  gives the empty list, respectively the empty dictionary.\<close>

definition dd_get :: "('k \<times> 'v list) list \<Rightarrow> 'k \<Rightarrow> 'v list" where
  "dd_get d k = (case map_of d k of None \<Rightarrow> [] | Some v \<Rightarrow> v)"

type_synonym dependency_map = "(string \<times> string list) list"

type_synonym categories = "(string \<times> (string \<times> string list) list) list"

section \<open>Building the reverse dependency map\<close>

text \<open>What \<^verbatim>\<open>subprocess.run(['pactree', '-r', '-u', '-d', '1', pkg], ...)\<close> can do: raise
  (the timeout of five seconds, a missing program, output that does not decode), or
  complete with a return code and the text of its standard output. The command itself is
  outside the script, so it is a parameter \<open>pactree\<close> of the model.\<close>

datatype run_result = Raised | Completed int string

text \<open>\<^verbatim>\<open>dependency_map[pkg].append(depender)\<close>.\<close>

definition append_depender :: "string \<Rightarrow> string \<Rightarrow> dependency_map \<Rightarrow> dependency_map" where
  "append_depender pkg depender dm = AList.update pkg (dd_get dm pkg @ [depender]) dm"

text \<open>The inner loop \<^verbatim>\<open>for depender in reverse_deps\<close>.\<close>

fun scan_reverse_deps :: "string \<Rightarrow> string list \<Rightarrow> dependency_map \<Rightarrow> dependency_map" where
  "scan_reverse_deps pkg [] dm = dm"
| "scan_reverse_deps pkg (line # reverse_deps) dm =
     (let depender = strip line in
      scan_reverse_deps pkg reverse_deps
        (if depender \<noteq> [] \<and> depender \<noteq> pkg then append_depender pkg depender dm else dm))"

text \<open>The outer loop \<^verbatim>\<open>for pkg in explicit_packages\<close>, over the packages in the order in
  which the set hands them out. An empty name is skipped before the command is run; an
  exception and a return code other than 0 leave the map as it is. The counter
  \<^verbatim>\<open>count\<close> only drives progress messages and is left out.\<close>

fun analyze :: "(string \<Rightarrow> run_result) \<Rightarrow> string list \<Rightarrow> dependency_map \<Rightarrow> dependency_map" where
  "analyze pactree [] dm = dm"
| "analyze pactree (pkg # rest) dm =
     analyze pactree rest
       (if pkg = [] then dm
        else (case pactree pkg of
                Raised \<Rightarrow> dm
              | Completed returncode out \<Rightarrow>
                  if returncode = 0
                  then scan_reverse_deps pkg (drop 1 (split_nl (strip out))) dm
                  else dm))"

definition build_dependency_map :: "(string \<Rightarrow> run_result) \<Rightarrow> string list \<Rightarrow> dependency_map" where
  "build_dependency_map pactree explicit_packages = analyze pactree explicit_packages []"

section \<open>Grouping by category\<close>

text \<open>The loop \<^verbatim>\<open>for dep, dependers in dependency_map.items()\<close>, which fills
  \<^verbatim>\<open>categories\<close>. The test \<^verbatim>\<open>d in explicit_packages\<close> is membership in the set.\<close>

fun group_items :: "string list \<Rightarrow> dependency_map \<Rightarrow> categories \<Rightarrow> categories" where
  "group_items explicit_packages [] cats = cats"
| "group_items explicit_packages ((dep, dependers) # items) cats =
     (let explicit_dependers = filter (\<lambda>d. d \<in> set explicit_packages) dependers in
      group_items explicit_packages items
        (if explicit_dependers \<noteq> []
         then (let cat = categorize dep in
               AList.update cat (AList.update dep explicit_dependers (dd_get cats cat)) cats)
         else cats))"

definition group_by_category :: "string list \<Rightarrow> dependency_map \<Rightarrow> categories" where
  "group_by_category explicit_packages dm = group_items explicit_packages dm []"

section \<open>Writing the report\<close>

text \<open>The report is the sequence of sections the output loop writes. A section has the
  category, the number \<^verbatim>\<open>len(categories[cat])\<close> printed in its title, and one entry for
  each dependency line with the depender lines below it. The text of the file is a fixed
  preamble followed by these sections, each line formatted from the values kept here.\<close>

record cat_section =
  category :: string
  packages :: nat
  entries :: "(string \<times> string list) list"

text \<open>The loop \<^verbatim>\<open>for dep in sorted(categories[cat].keys())\<close>: the dependers are
  \<^verbatim>\<open>sorted(set(...))\<close>, filtered once more, and an entry is written unless none is
  left.\<close>

fun write_entries :: "string list \<Rightarrow> (string \<times> string list) list \<Rightarrow> string list
    \<Rightarrow> (string \<times> string list) list" where
  "write_entries explicit_packages in_cat [] = []"
| "write_entries explicit_packages in_cat (dep # deps) =
     (let all_dependers = sort (remdups (dd_get in_cat dep));
          dependers = filter (\<lambda>d. d \<in> set explicit_packages) all_dependers
      in if dependers = [] then write_entries explicit_packages in_cat deps
         else (dep, dependers) # write_entries explicit_packages in_cat deps)"

text \<open>The loop \<^verbatim>\<open>for cat in cat_order\<close>.\<close>

fun write_sections :: "string list \<Rightarrow> categories \<Rightarrow> string list \<Rightarrow> cat_section list" where
  "write_sections explicit_packages cats [] = []"
| "write_sections explicit_packages cats (cat # order) =
     (if cat \<notin> set (map fst cats) \<or> dd_get cats cat = []
      then write_sections explicit_packages cats order
      else \<lparr>category = cat, packages = length (dd_get cats cat),
             entries = write_entries explicit_packages (dd_get cats cat)
                         (sort (map fst (dd_get cats cat)))\<rparr>
           # write_sections explicit_packages cats order)"

definition write_output :: "string list \<Rightarrow> categories \<Rightarrow> cat_section list" where
  "write_output explicit_packages cats = write_sections explicit_packages cats cat_order"

text \<open>From a dependency map to the report: the grouping, then the output loop.\<close>

definition build_report :: "string list \<Rightarrow> dependency_map \<Rightarrow> cat_section list" where
  "build_report explicit_packages dm =
     write_output explicit_packages (group_by_category explicit_packages dm)"

text \<open>The script from the set of explicit packages to the report.\<close>

definition run :: "(string \<Rightarrow> run_result) \<Rightarrow> string list \<Rightarrow> cat_section list" where
  "run pactree explicit_packages =
     build_report explicit_packages (build_dependency_map pactree explicit_packages)"

section \<open>Notions of the specification\<close>

text \<open>The categorization rule table of the specification: sixteen rules in order, each a
  test on the package name and the category it gives, the tests written as the script
  writes them. The first rule whose test holds decides; \<^verbatim>\<open>OTHER\<close> is the category of a
  name that no rule matches.\<close>

definition rule_table :: "((string \<Rightarrow> bool) \<times> string) list" where
  "rule_table =
     [(\<lambda>pkg. contains ''python'' (lower pkg) \<or> startswith pkg ''python-'', ''PYTHON''),
      (\<lambda>pkg. contains ''perl'' (lower pkg), ''PERL''),
      (\<lambda>pkg. pkg \<in> set [''git'', ''openssh'', ''rsync'', ''sudo'', ''which'', ''diffutils''],
         ''DEVELOPMENT_TOOLS''),
      (\<lambda>pkg. contains ''bluez'' (lower pkg), ''BLUETOOTH''),
      (\<lambda>pkg. contains ''pipewire'' (lower pkg) \<or> contains ''alsa'' (lower pkg), ''AUDIO''),
      (\<lambda>pkg. contains ''device-mapper'' (lower pkg) \<or> contains ''cryptsetup'' (lower pkg),
         ''STORAGE''),
      (\<lambda>pkg. contains ''xdg'' (lower pkg) \<or> contains ''desktop'' (lower pkg), ''DESKTOP''),
      (\<lambda>pkg. contains ''kde'' (lower pkg) \<or> contains ''kio'' (lower pkg)
              \<or> contains ''plasma'' (lower pkg), ''KDE''),
      (\<lambda>pkg. contains ''gtk'' (lower pkg) \<or> contains ''qt'' (lower pkg), ''GUI_LIBS''),
      (\<lambda>pkg. contains ''gnome-keyring'' (lower pkg), ''SECURITY''),
      (\<lambda>pkg. contains ''jdk'' (lower pkg) \<or> contains ''java'' (lower pkg), ''JAVA''),
      (\<lambda>pkg. contains ''openxr'' (lower pkg), ''VR''),
      (\<lambda>pkg. contains ''e2fsprogs'' (lower pkg) \<or> contains ''dosfstools'' (lower pkg)
              \<or> contains ''mtools'' (lower pkg), ''FILESYSTEM''),
      (\<lambda>pkg. contains ''systemd'' (lower pkg), ''SYSTEM''),
      (\<lambda>pkg. contains ''texinfo'' (lower pkg) \<or> contains ''hwinfo'' (lower pkg), ''SYSTEM_INFO''),
      (\<lambda>pkg. contains ''unzip'' (lower pkg), ''ARCHIVE'')]"

fun first_match :: "((string \<Rightarrow> bool) \<times> string) list \<Rightarrow> string \<Rightarrow> string" where
  "first_match [] pkg = ''OTHER''"
| "first_match ((matches, cat) # rules) pkg =
     (if matches pkg then cat else first_match rules pkg)"

text \<open>The raw dependers of a package, in the words of the specification: the lines of the
  command's output after the header line, and no line at all when the command raises or
  returns a code other than 0.\<close>

definition raw_dependers :: "(string \<Rightarrow> run_result) \<Rightarrow> string \<Rightarrow> string list" where
  "raw_dependers pactree pkg =
     (case pactree pkg of
        Raised \<Rightarrow> []
      | Completed returncode out \<Rightarrow>
          if returncode = 0 then drop 1 (split_nl (strip out)) else [])"

text \<open>The raw dependers after whitespace stripping, with empty strings and entries equal
  to the package itself removed, duplicates preserved.\<close>

definition kept_dependers :: "(string \<Rightarrow> run_result) \<Rightarrow> string \<Rightarrow> string list" where
  "kept_dependers pactree pkg =
     filter (\<lambda>d. d \<noteq> [] \<and> d \<noteq> pkg) (map strip (raw_dependers pactree pkg))"

text \<open>The lookups the script treats as failed: the command raises, or it completes with a
  return code other than 0. The script never looks at the shape of the output.\<close>

fun failed :: "run_result \<Rightarrow> bool" where
  "failed Raised = True"
| "failed (Completed returncode out) = (returncode \<noteq> 0)"

text \<open>The dependency names of a report, section by section and line by line.\<close>

definition listed :: "cat_section list \<Rightarrow> string list" where
  "listed report = concat (map (\<lambda>s. map fst (entries s)) report)"

text \<open>The output loop with the explicit-package filter applied once only: the
  comprehension of the line-emission step is left out, so the dependers written are
  \<^verbatim>\<open>sorted(set(categories[cat][dep]))\<close> as they are.\<close>

fun write_entries_once :: "(string \<times> string list) list \<Rightarrow> string list
    \<Rightarrow> (string \<times> string list) list" where
  "write_entries_once in_cat [] = []"
| "write_entries_once in_cat (dep # deps) =
     (let dependers = sort (remdups (dd_get in_cat dep))
      in if dependers = [] then write_entries_once in_cat deps
         else (dep, dependers) # write_entries_once in_cat deps)"

fun write_sections_once :: "categories \<Rightarrow> string list \<Rightarrow> cat_section list" where
  "write_sections_once cats [] = []"
| "write_sections_once cats (cat # order) =
     (if cat \<notin> set (map fst cats) \<or> dd_get cats cat = []
      then write_sections_once cats order
      else \<lparr>category = cat, packages = length (dd_get cats cat),
             entries = write_entries_once (dd_get cats cat)
                         (sort (map fst (dd_get cats cat)))\<rparr>
           # write_sections_once cats order)"

definition build_report_once :: "string list \<Rightarrow> dependency_map \<Rightarrow> cat_section list" where
  "build_report_once explicit_packages dm =
     write_sections_once (group_by_category explicit_packages dm) cat_order"

text \<open>What holds of \<^verbatim>\<open>categories\<close> while it is filled: no category has an empty
  dictionary, the keys of a category's dictionary are distinct, and every dependency in it
  has at least one depender, all of them explicit packages.\<close>

definition entries_inv :: "string list \<Rightarrow> (string \<times> string list) list \<Rightarrow> bool" where
  "entries_inv eps in_cat \<longleftrightarrow>
     distinct (map fst in_cat) \<and> (\<forall>(dep, ds) \<in> set in_cat. ds \<noteq> [] \<and> set ds \<subseteq> set eps)"

definition cats_inv :: "string list \<Rightarrow> categories \<Rightarrow> bool" where
  "cats_inv eps cats \<longleftrightarrow> (\<forall>(cat, in_cat) \<in> set cats. in_cat \<noteq> [] \<and> entries_inv eps in_cat)"

text \<open>A run used as an example: the package \<^verbatim>\<open>python\<close> has two explicit dependers, a
  depender that is not explicit, a line naming \<^verbatim>\<open>python\<close> itself, a blank line and a
  repeated line; \<^verbatim>\<open>libfoo\<close> has one depender that is not explicit; \<^verbatim>\<open>qt5-base\<close> has
  none; the lookup of \<^verbatim>\<open>inkscape\<close> raises and the one of \<^verbatim>\<open>libreoffice-fresh\<close>
  returns code 1. The set of explicit packages also holds the empty name, for which the
  command, were it asked, would name \<^verbatim>\<open>python\<close>.\<close>

definition scenario_packages :: "string list" where
  "scenario_packages =
     [''libfoo'', ''python'', '''', ''inkscape'', ''qt5-base'', ''libreoffice-fresh'']"

definition scenario_pactree :: "string \<Rightarrow> run_result" where
  "scenario_pactree pkg =
     (if pkg = ''python''
        then Completed 0
          ''python\<newline>inkscape\<newline>  libreoffice-fresh \<newline>some-other-tool\<newline>python\<newline>\<newline>inkscape\<newline>''
      else if pkg = ''libfoo'' then Completed 0 ''libfoo\<newline>nonexplicit-pkg\<newline>''
      else if pkg = ''qt5-base'' then Completed 0 ''qt5-base\<newline>''
      else if pkg = ''inkscape'' then Raised
      else if pkg = '''' then Completed 0 ''header\<newline>python\<newline>''
      else Completed 1 ''libreoffice-fresh\<newline>python\<newline>'')"

text \<open>A command whose answer for \<^verbatim>\<open>python\<close> is malformed: it completes with return code 0
  and prints a usage message in place of a dependency tree.\<close>

definition malformed_pactree :: "string \<Rightarrow> run_result" where
  "malformed_pactree pkg =
     (if pkg = ''python''
      then Completed 0 ''usage: pactree options package\<newline>  -r, --reverse\<newline>''
      else Raised)"

text \<open>A dependency map given as such, and the same dictionary and the same set of explicit
  packages with their elements in another order.\<close>

definition scenario_map :: dependency_map where
  "scenario_map =
     [(''zlib'', [''python'', ''git'', ''python'']), (''python'', [''inkscape'', ''unlisted'']),
      (''git'', [''inkscape'']), (''abc'', [''unlisted''])]"

definition scenario_map_reordered :: dependency_map where
  "scenario_map_reordered =
     [(''abc'', [''unlisted'']), (''git'', [''inkscape'']),
      (''python'', [''inkscape'', ''unlisted'']), (''zlib'', [''python'', ''git'', ''python''])]"

definition scenario_explicit :: "string list" where
  "scenario_explicit = [''zlib'', ''python'', ''inkscape'', ''git'', ''abc'']"

definition scenario_explicit_reordered :: "string list" where
  "scenario_explicit_reordered = [''abc'', ''git'', ''inkscape'', ''python'', ''zlib'']"

section \<open>Properties of the string functions and of the categories\<close>

lemma of_char_lower_char:
  "(of_char (lower_char c) :: nat) =
     (let n = of_char c in
      if (65 \<le> n \<and> n \<le> 90) \<or> (192 \<le> n \<and> n \<le> 214) \<or> (216 \<le> n \<and> n \<le> 222)
      then n + 32 else n)"
  by (simp add: lower_char_def Let_def)

lemma lower_char_idem: "lower_char (lower_char c) = lower_char c"
proof -
  have "(of_char (lower_char (lower_char c)) :: nat) = of_char (lower_char c)"
    unfolding of_char_lower_char [of "lower_char c"]
    unfolding of_char_lower_char [of c] Let_def
    by simp
  then show ?thesis by simp
qed

lemma lower_idem: "lower (lower s) = lower s"
  by (simp add: lower_def lower_char_idem)

lemma lower_append: "lower (xs @ ys) = lower xs @ lower ys"
  by (simp add: lower_def)

lemma contains_iff_sublist: "contains sub s \<longleftrightarrow> sublist sub s"
  by (induction s) (auto simp: sublist_Cons_right)

lemma prefix_contains: "prefix (a @ b) s \<Longrightarrow> contains a s"
  unfolding contains_iff_sublist
  by (metis prefix_def append.assoc sublist_appendI append_Nil)

lemma lower_python_dash: "lower ''python-'' = ''python-''"
  by code_simp

lemma startswith_python_lower:
  assumes "startswith s ''python-''"
  shows "contains ''python'' (lower s)"
proof -
  from assms obtain r where "s = ''python-'' @ r"
    by (auto simp: startswith_def prefix_def)
  then have "lower s = (''python'' @ ''-'') @ lower r"
    using lower_python_dash by (simp add: lower_append del: append.simps)
  then have "prefix (''python'' @ ''-'') (lower s)"
    by (metis prefixI)
  then show ?thesis by (rule prefix_contains)
qed

lemma startswith_python_contains:
  "startswith s ''python-'' \<Longrightarrow> contains ''python'' s"
  unfolding startswith_def using prefix_contains [of "''python''" "''-''" s] by simp

lemma tools_lower:
  "pkg \<in> set [''git'', ''openssh'', ''rsync'', ''sudo'', ''which'', ''diffutils'']
   \<Longrightarrow> lower pkg = pkg"
  by (auto; code_simp)

lemma categorize_first_match_table: "categorize pkg = first_match rule_table pkg"
  by (simp only: categorize_def rule_table_def first_match.simps)

lemma first_match_none:
  "\<forall>r \<in> set rules. \<not> fst r pkg \<Longrightarrow> first_match rules pkg = ''OTHER''"
  by (induction rules) auto

lemma first_match_first:
  "\<forall>r \<in> set before. \<not> fst r pkg \<Longrightarrow> matches pkg \<Longrightarrow>
   first_match (before @ (matches, cat) # after) pkg = cat"
  by (induction before) auto

lemma map_snd_rule_table: "map snd rule_table @ [''OTHER''] = cat_order"
  by code_simp

text \<open>Claim C1. For every package name, \<^const>\<open>categorize\<close> returns one category, a member
  of the fixed list \<^const>\<open>cat_order\<close>: the category of the first rule of the ordered rule
  table whose test holds, and \<^verbatim>\<open>OTHER\<close> when no rule matches. So whenever a rule matches
  and no rule before it does, its category is the result, whatever later rules match; in
  particular a name whose lower-case form contains both \<^verbatim>\<open>python\<close> (rule 1) and
  \<^verbatim>\<open>kde\<close> (rule 8), such as \<^verbatim>\<open>python-kde-tools\<close>, is \<^verbatim>\<open>PYTHON\<close>.\<close>

theorem categorize_first_match:
  "categorize pkg \<in> set cat_order
   \<and> categorize pkg = first_match rule_table pkg
   \<and> ((\<forall>r \<in> set rule_table. \<not> fst r pkg) \<longrightarrow> categorize pkg = ''OTHER'')
   \<and> (\<forall>before matches cat after.
          rule_table = before @ (matches, cat) # after \<and> matches pkg
          \<and> (\<forall>r \<in> set before. \<not> fst r pkg) \<longrightarrow> categorize pkg = cat)
   \<and> (contains ''python'' (lower pkg) \<and> contains ''kde'' (lower pkg)
        \<longrightarrow> categorize pkg = ''PYTHON'')"
proof -
  have a: "categorize pkg \<in> set cat_order" unfolding categorize_def cat_order_def by simp
  have b: "categorize pkg = first_match rule_table pkg" by (rule categorize_first_match_table)
  have c: "(\<forall>r \<in> set rule_table. \<not> fst r pkg) \<longrightarrow> categorize pkg = ''OTHER''"
    unfolding b by (rule impI) (rule first_match_none)
  have d: "\<forall>before matches cat after.
          rule_table = before @ (matches, cat) # after \<and> matches pkg
          \<and> (\<forall>r \<in> set before. \<not> fst r pkg) \<longrightarrow> categorize pkg = cat"
    unfolding b using first_match_first [of _ pkg] by metis
  have e: "contains ''python'' (lower pkg) \<and> contains ''kde'' (lower pkg)
        \<longrightarrow> categorize pkg = ''PYTHON''"
    unfolding categorize_def by simp
  show ?thesis by (rule conjI [OF a conjI [OF b conjI [OF c conjI [OF d e]]]])
qed

theorem categorize_first_match_witness:
  "contains ''python'' (lower ''python-kde-tools'') \<and> contains ''kde'' (lower ''python-kde-tools'')
   \<and> categorize ''python-kde-tools'' = ''PYTHON''
   \<and> list_all (\<lambda>r. \<not> fst r ''zlib'') rule_table
   \<and> categorize ''zlib'' = ''OTHER''
   \<and> categorize ''plasma-desktop'' = ''DESKTOP''"
proof -
  have h: "contains ''python'' (lower ''python-kde-tools'') \<and> contains ''kde'' (lower ''python-kde-tools'')"
    by code_simp
  have z: "list_all (\<lambda>r. \<not> fst r ''zlib'') rule_table" by code_simp
  then have z': "\<forall>r \<in> set rule_table. \<not> fst r ''zlib''" by (simp only: list_all_iff)
  have p: "categorize ''plasma-desktop'' = ''DESKTOP''" by code_simp
  from categorize_first_match [of "''python-kde-tools''"] h
  have 1: "categorize ''python-kde-tools'' = ''PYTHON''" by blast
  from categorize_first_match [of "''zlib''"] z'
  have 2: "categorize ''zlib'' = ''OTHER''" by blast
  from h 1 z 2 p show ?thesis by simp
qed

text \<open>Claim C4, as stated: \<^const>\<open>categorize\<close> gives a name and its lower-case form the
  same category. The membership test of the third branch looks at the name as it is,
  so \<^verbatim>\<open>Git\<close> is \<^verbatim>\<open>OTHER\<close> while \<^verbatim>\<open>git\<close> is \<^verbatim>\<open>DEVELOPMENT_TOOLS\<close>.\<close>

theorem categorize_case_counterexample:
  "categorize ''Git'' \<noteq> categorize (lower ''Git'')"
  by code_simp

text \<open>Claim C4, amended: the substring rules and the prefix rule do not depend on the
  case of the name, and the exact-name rule does: \<^const>\<open>categorize\<close> gives a name and
  its lower-case form the same category whenever the name is one of the six exact names
  or its lower-case form is none of them.\<close>

theorem categorize_lower:
  assumes "pkg \<in> set [''git'', ''openssh'', ''rsync'', ''sudo'', ''which'', ''diffutils'']
           \<or> lower pkg \<notin> set [''git'', ''openssh'', ''rsync'', ''sudo'', ''which'', ''diffutils'']"
  shows "categorize (lower pkg) = categorize pkg"
proof -
  have py: "(contains ''python'' (lower pkg) \<or> startswith (lower pkg) ''python-'')
            = (contains ''python'' (lower pkg) \<or> startswith pkg ''python-'')"
    using startswith_python_lower [of pkg] startswith_python_contains [of "lower pkg"]
    by auto
  have tools: "(lower pkg \<in> set [''git'', ''openssh'', ''rsync'', ''sudo'', ''which'', ''diffutils''])
               = (pkg \<in> set [''git'', ''openssh'', ''rsync'', ''sudo'', ''which'', ''diffutils''])"
    using assms tools_lower [of pkg] by metis
  show ?thesis
    by (simp only: categorize_def lower_idem py tools)
qed

theorem categorize_lower_witness:
  "lower ''Qt5-Base'' \<notin> set [''git'', ''openssh'', ''rsync'', ''sudo'', ''which'', ''diffutils'']
   \<and> categorize (lower ''Qt5-Base'') = categorize ''Qt5-Base''
   \<and> categorize ''Qt5-Base'' = ''GUI_LIBS''"
proof -
  have h: "lower ''Qt5-Base'' \<notin> set [''git'', ''openssh'', ''rsync'', ''sudo'', ''which'', ''diffutils'']"
    by code_simp
  have c: "categorize ''Qt5-Base'' = ''GUI_LIBS''" by code_simp
  show ?thesis using h c categorize_lower [of "''Qt5-Base''"] by blast
qed

section \<open>Association lists\<close>

lemma update_fresh: "k \<notin> fst ` set al \<Longrightarrow> AList.update k v al = al @ [(k, v)]"
  by (induction al) auto

lemma dd_get_fresh: "k \<notin> fst ` set al \<Longrightarrow> dd_get al k = []"
  by (simp add: dd_get_def map_of_eq_None_iff [THEN iffD2])

lemma dd_get_update: "dd_get (AList.update k v al) k' = (if k' = k then v else dd_get al k')"
  by (simp add: dd_get_def update_conv')

lemma dd_get_Nil: "dd_get [] k = []"
  by (simp add: dd_get_def)

lemma dd_get_cases: "dd_get d k = [] \<or> (k, dd_get d k) \<in> set d"
  by (auto simp: dd_get_def split: option.split dest: map_of_SomeD)

lemma dd_get_key: "k \<in> fst ` set d \<Longrightarrow> (k, dd_get d k) \<in> set d"
  by (cases "map_of d k") (auto simp: dd_get_def map_of_eq_None_iff dest: map_of_SomeD)

lemma dd_get_prop:
  assumes "\<forall>(c, I) \<in> set d. P I" "P []"
  shows "P (dd_get d k)"
proof (cases "dd_get d k = []")
  case True
  with assms(2) show ?thesis by simp
next
  case False
  then have "(k, dd_get d k) \<in> set d" using dd_get_cases [of d k] by simp
  from bspec [OF assms(1) this] show ?thesis by simp
qed


lemma set_update_subset: "set (AList.update k v al) \<subseteq> insert (k, v) (set al)"
  by (induction al) auto

lemma update_not_Nil: "AList.update k v al \<noteq> []"
  by (cases al) auto

section \<open>The dependency map in closed form\<close>

lemma scan_reverse_deps_closed:
  "scan_reverse_deps pkg lines dm =
     (if filter (\<lambda>d. d \<noteq> [] \<and> d \<noteq> pkg) (map strip lines) = [] then dm
      else AList.update pkg
             (dd_get dm pkg @ filter (\<lambda>d. d \<noteq> [] \<and> d \<noteq> pkg) (map strip lines)) dm)"
proof (induction lines arbitrary: dm)
  case Nil
  show ?case by simp
next
  case (Cons line lines)
  show ?case
    by (simp add: Cons.IH Let_def append_depender_def dd_get_update update_last)
qed

lemma analyze_Cons:
  "analyze pactree (pkg # rest) dm =
     analyze pactree rest
       (if pkg \<noteq> [] \<and> kept_dependers pactree pkg \<noteq> []
        then AList.update pkg (dd_get dm pkg @ kept_dependers pactree pkg) dm else dm)"
  by (simp add: scan_reverse_deps_closed kept_dependers_def raw_dependers_def
      split: run_result.split)

lemma analyze_closed:
  "distinct eps \<Longrightarrow> set eps \<inter> fst ` set dm = {} \<Longrightarrow>
   analyze pactree eps dm =
     dm @ map (\<lambda>p. (p, kept_dependers pactree p))
            (filter (\<lambda>p. p \<noteq> [] \<and> kept_dependers pactree p \<noteq> []) eps)"
proof (induction eps arbitrary: dm)
  case Nil
  show ?case by simp
next
  case (Cons pkg rest)
  have fresh: "pkg \<notin> fst ` set dm" using Cons.prems by auto
  show ?case
  proof (cases "pkg \<noteq> [] \<and> kept_dependers pactree pkg \<noteq> []")
    case True
    let ?dm = "dm @ [(pkg, kept_dependers pactree pkg)]"
    have "distinct rest" using Cons.prems by simp
    moreover have "set rest \<inter> fst ` set ?dm = {}" using Cons.prems by auto
    ultimately have "analyze pactree rest ?dm =
        ?dm @ map (\<lambda>p. (p, kept_dependers pactree p))
                (filter (\<lambda>p. p \<noteq> [] \<and> kept_dependers pactree p \<noteq> []) rest)"
      by (rule Cons.IH)
    with True fresh show ?thesis
      by (simp add: analyze_Cons update_fresh dd_get_fresh del: analyze.simps)
  next
    case False
    have "distinct rest" using Cons.prems by simp
    moreover have "set rest \<inter> fst ` set dm = {}" using Cons.prems by auto
    ultimately have "analyze pactree rest dm =
        dm @ map (\<lambda>p. (p, kept_dependers pactree p))
                (filter (\<lambda>p. p \<noteq> [] \<and> kept_dependers pactree p \<noteq> []) rest)"
      by (rule Cons.IH)
    with False show ?thesis
      by (auto simp add: analyze_Cons simp del: analyze.simps)
  qed
qed

lemma build_dependency_map_closed:
  "distinct eps \<Longrightarrow>
   build_dependency_map pactree eps =
     map (\<lambda>p. (p, kept_dependers pactree p))
       (filter (\<lambda>p. p \<noteq> [] \<and> kept_dependers pactree p \<noteq> []) eps)"
  using analyze_closed [of eps "[]" pactree] by (simp add: build_dependency_map_def)

lemma map_of_build_dependency_map:
  "distinct eps \<Longrightarrow>
   map_of (build_dependency_map pactree eps) p =
     (if p \<in> set eps \<and> p \<noteq> [] \<and> kept_dependers pactree p \<noteq> []
      then Some (kept_dependers pactree p) else None)"
  by (simp add: build_dependency_map_closed map_of_map_restrict restrict_map_def)

lemma distinct_keys_build_dependency_map:
  "distinct eps \<Longrightarrow> distinct (map fst (build_dependency_map pactree eps))"
  by (simp add: build_dependency_map_closed comp_def distinct_map_filter)

lemma analyze_skip:
  "p = [] \<or> kept_dependers pactree p = [] \<Longrightarrow>
   analyze pactree (removeAll p eps) dm = analyze pactree eps dm"
  by (induction eps arbitrary: dm) (auto simp: analyze_Cons simp del: analyze.simps)

lemma keys_analyze:
  "fst ` set (analyze pactree eps dm) \<subseteq> fst ` set dm \<union> (set eps - {[]})"
proof (induction eps arbitrary: dm)
  case Nil
  show ?case by simp
next
  case (Cons pkg rest)
  show ?case
    unfolding analyze_Cons using Cons.IH [of "if pkg \<noteq> [] \<and> kept_dependers pactree pkg \<noteq> []
        then AList.update pkg (dd_get dm pkg @ kept_dependers pactree pkg) dm else dm"]
    by (auto simp: dom_update image_iff split: if_splits)
qed

lemma keys_build_dependency_map:
  "fst ` set (build_dependency_map pactree eps) \<subseteq> set eps - {[]}"
  using keys_analyze [of pactree eps "[]"] by (simp add: build_dependency_map_def)

lemma analyze_empty_name:
  "analyze (pactree([] := r)) eps dm = analyze pactree eps dm"
  by (induction eps arbitrary: dm) auto

lemma failed_kept_dependers: "failed (pactree p) \<Longrightarrow> kept_dependers pactree p = []"
  by (cases "pactree p") (simp_all add: kept_dependers_def raw_dependers_def)

section \<open>The grouping keeps its invariant\<close>

lemma entries_inv_Nil: "entries_inv eps []"
  by (simp add: entries_inv_def)

lemma entries_inv_dd_get: "cats_inv eps cats \<Longrightarrow> entries_inv eps (dd_get cats cat)"
  using dd_get_cases [of cats cat] by (auto simp: cats_inv_def entries_inv_Nil)

lemma entries_inv_update:
  assumes "entries_inv eps in_cat" "ds \<noteq> []" "set ds \<subseteq> set eps"
  shows "entries_inv eps (AList.update dep ds in_cat)"
proof -
  have "\<forall>(d, xs) \<in> insert (dep, ds) (set in_cat). xs \<noteq> [] \<and> set xs \<subseteq> set eps"
    using assms by (simp add: entries_inv_def)
  then have "\<forall>(d, xs) \<in> set (AList.update dep ds in_cat). xs \<noteq> [] \<and> set xs \<subseteq> set eps"
    using set_update_subset [of dep ds in_cat] by blast
  moreover have "distinct (map fst (AList.update dep ds in_cat))"
    using assms(1) by (simp add: entries_inv_def distinct_update)
  ultimately show ?thesis by (simp add: entries_inv_def)
qed

lemma cats_inv_update:
  assumes "cats_inv eps cats" "in_cat \<noteq> []" "entries_inv eps in_cat"
  shows "cats_inv eps (AList.update cat in_cat cats)"
proof -
  have "\<forall>(c, xs) \<in> insert (cat, in_cat) (set cats). xs \<noteq> [] \<and> entries_inv eps xs"
    using assms by (simp add: cats_inv_def)
  then have "\<forall>(c, xs) \<in> set (AList.update cat in_cat cats). xs \<noteq> [] \<and> entries_inv eps xs"
    using set_update_subset [of cat in_cat cats] by blast
  then show ?thesis by (simp add: cats_inv_def)
qed

lemma cats_inv_group_items:
  "cats_inv eps cats \<Longrightarrow> cats_inv eps (group_items eps dm cats)"
proof (induction dm arbitrary: cats)
  case Nil
  then show ?case by simp
next
  case (Cons item items)
  obtain dep dependers where item: "item = (dep, dependers)" by (cases item)
  let ?ed = "filter (\<lambda>d. d \<in> set eps) dependers"
  show ?case
  proof (cases "?ed = []")
    case True
    with Cons item show ?thesis by simp
  next
    case False
    let ?cat = "categorize dep"
    have "entries_inv eps (AList.update dep ?ed (dd_get cats ?cat))"
      using False Cons.prems by (intro entries_inv_update entries_inv_dd_get) auto
    then have "cats_inv eps (AList.update ?cat (AList.update dep ?ed (dd_get cats ?cat)) cats)"
      using Cons.prems by (intro cats_inv_update update_not_Nil)
    then have "cats_inv eps (group_items eps items
        (AList.update ?cat (AList.update dep ?ed (dd_get cats ?cat)) cats))"
      by (rule Cons.IH)
    with False item show ?thesis by (simp add: Let_def)
  qed
qed

lemma cats_inv_group_by_category: "cats_inv eps (group_by_category eps dm)"
  unfolding group_by_category_def
  by (rule cats_inv_group_items) (simp add: cats_inv_def)

section \<open>The output loop in closed form\<close>

lemma filter_sorted_dependers:
  "set ds \<subseteq> set eps \<Longrightarrow> filter (\<lambda>d. d \<in> set eps) (sort (remdups ds)) = sort (remdups ds)"
  by (rule filter_True) auto

lemma write_entries_closed:
  assumes "entries_inv eps in_cat" "set deps \<subseteq> fst ` set in_cat"
  shows "write_entries eps in_cat deps = map (\<lambda>dep. (dep, sort (remdups (dd_get in_cat dep)))) deps"
  using assms(2)
proof (induction deps)
  case Nil
  show ?case by simp
next
  case (Cons dep deps)
  then have "(dep, dd_get in_cat dep) \<in> set in_cat" by (intro dd_get_key) simp
  with assms(1) have ne: "dd_get in_cat dep \<noteq> []" and sub: "set (dd_get in_cat dep) \<subseteq> set eps"
    by (auto simp: entries_inv_def)
  have "sort (remdups (dd_get in_cat dep)) \<noteq> []"
    using ne by (metis set_empty set_remdups set_sort)
  with Cons sub show ?case
    by (simp add: Let_def filter_sorted_dependers)
qed

lemma write_entries_once_closed:
  assumes "entries_inv eps in_cat" "set deps \<subseteq> fst ` set in_cat"
  shows "write_entries_once in_cat deps = map (\<lambda>dep. (dep, sort (remdups (dd_get in_cat dep)))) deps"
  using assms(2)
proof (induction deps)
  case Nil
  show ?case by simp
next
  case (Cons dep deps)
  then have "(dep, dd_get in_cat dep) \<in> set in_cat" by (intro dd_get_key) simp
  with assms(1) have ne: "dd_get in_cat dep \<noteq> []"
    by (auto simp: entries_inv_def)
  have "sort (remdups (dd_get in_cat dep)) \<noteq> []"
    using ne by (metis set_empty set_remdups set_sort)
  with Cons show ?case
    by (simp add: Let_def)
qed

lemma write_sections_closed:
  assumes "cats_inv eps cats"
  shows "write_sections eps cats order =
     map (\<lambda>cat. \<lparr>category = cat, packages = length (dd_get cats cat),
                 entries = map (\<lambda>dep. (dep, sort (remdups (dd_get (dd_get cats cat) dep))))
                             (sort (map fst (dd_get cats cat)))\<rparr>)
       (filter (\<lambda>cat. dd_get cats cat \<noteq> []) order)"
proof (induction order)
  case Nil
  show ?case by simp
next
  case (Cons cat order)
  have "entries_inv eps (dd_get cats cat)" using assms by (rule entries_inv_dd_get)
  then have "write_entries eps (dd_get cats cat) (sort (map fst (dd_get cats cat))) =
      map (\<lambda>dep. (dep, sort (remdups (dd_get (dd_get cats cat) dep))))
        (sort (map fst (dd_get cats cat)))"
    by (rule write_entries_closed) simp
  moreover have "cat \<notin> set (map fst cats) \<Longrightarrow> dd_get cats cat = []"
    by (simp add: dd_get_fresh)
  ultimately show ?case using Cons by auto
qed

lemma write_sections_once_closed:
  assumes "cats_inv eps cats"
  shows "write_sections_once cats order =
     map (\<lambda>cat. \<lparr>category = cat, packages = length (dd_get cats cat),
                 entries = map (\<lambda>dep. (dep, sort (remdups (dd_get (dd_get cats cat) dep))))
                             (sort (map fst (dd_get cats cat)))\<rparr>)
       (filter (\<lambda>cat. dd_get cats cat \<noteq> []) order)"
proof (induction order)
  case Nil
  show ?case by simp
next
  case (Cons cat order)
  have "entries_inv eps (dd_get cats cat)" using assms by (rule entries_inv_dd_get)
  then have "write_entries_once (dd_get cats cat) (sort (map fst (dd_get cats cat))) =
      map (\<lambda>dep. (dep, sort (remdups (dd_get (dd_get cats cat) dep))))
        (sort (map fst (dd_get cats cat)))"
    by (rule write_entries_once_closed) simp
  moreover have "cat \<notin> set (map fst cats) \<Longrightarrow> dd_get cats cat = []"
    by (simp add: dd_get_fresh)
  ultimately show ?case using Cons by auto
qed

lemma build_report_closed:
  "build_report eps dm =
     map (\<lambda>cat. \<lparr>category = cat, packages = length (dd_get (group_by_category eps dm) cat),
                 entries = map (\<lambda>dep. (dep, sort (remdups
                                  (dd_get (dd_get (group_by_category eps dm) cat) dep))))
                             (sort (map fst (dd_get (group_by_category eps dm) cat)))\<rparr>)
       (filter (\<lambda>cat. dd_get (group_by_category eps dm) cat \<noteq> []) cat_order)"
  unfolding build_report_def write_output_def
  by (rule write_sections_closed) (rule cats_inv_group_by_category)

section \<open>The report as a function of the dependency map\<close>


lemma group_items_set_cong:
  "set eps1 = set eps2 \<Longrightarrow> group_items eps1 dm cats = group_items eps2 dm cats"
  by (induction dm arbitrary: cats) auto

lemma map_of_group_items:
  "distinct (map fst dm) \<Longrightarrow>
   map_of (dd_get (group_items eps dm cats) cat) dep =
     (case map_of dm dep of
        None \<Rightarrow> map_of (dd_get cats cat) dep
      | Some ds \<Rightarrow>
          if categorize dep = cat \<and> filter (\<lambda>d. d \<in> set eps) ds \<noteq> []
          then Some (filter (\<lambda>d. d \<in> set eps) ds)
          else map_of (dd_get cats cat) dep)"
proof (induction dm arbitrary: cats)
  case Nil
  show ?case by simp
next
  case (Cons item items)
  obtain dep0 ds0 where item: "item = (dep0, ds0)" by (cases item)
  have d: "distinct (map fst items)" and fresh: "map_of items dep0 = None"
    using Cons.prems item by (auto simp: map_of_eq_None_iff)
  show ?case
    unfolding item using fresh
    by (auto simp: Cons.IH [OF d] Let_def dd_get_update update_conv' split: option.split)
qed

lemma map_of_group_by_category:
  "distinct (map fst dm) \<Longrightarrow>
   map_of (dd_get (group_by_category eps dm) cat) dep =
     (case map_of dm dep of
        None \<Rightarrow> None
      | Some ds \<Rightarrow>
          if categorize dep = cat \<and> filter (\<lambda>d. d \<in> set eps) ds \<noteq> []
          then Some (filter (\<lambda>d. d \<in> set eps) ds) else None)"
  using map_of_group_items [of dm eps "[]" cat dep]
  by (simp add: group_by_category_def dd_get_Nil split: option.split)

lemma alist_same:
  assumes "distinct (map fst a)" "distinct (map fst b)" "map_of a = map_of b"
  shows "(a = []) = (b = [])" "length a = length b" "sort (map fst a) = sort (map fst b)"
    "dd_get a = dd_get b"
proof -
  have s: "set (map fst a) = set (map fst b)"
    using assms(3) by (metis dom_map_of_conv_image_fst set_map)
  then show "(a = []) = (b = [])" by (metis map_is_Nil_conv set_empty)
  have "length (map fst a) = length (map fst b)"
    using s assms(1,2) by (metis distinct_card)
  then show "length a = length b" by simp
  show "sort (map fst a) = sort (map fst b)"
    using s assms(1,2) by (intro sorted_distinct_set_unique) simp_all
  show "dd_get a = dd_get b"
    using assms(3) by (simp add: dd_get_def fun_eq_iff)
qed

lemma build_report_cong:
  assumes "distinct (map fst dm1)" "distinct (map fst dm2)" "map_of dm1 = map_of dm2"
    and "set eps1 = set eps2"
  shows "build_report eps1 dm1 = build_report eps2 dm2"
proof -
  let ?I1 = "\<lambda>cat. dd_get (group_by_category eps1 dm1) cat"
  let ?I2 = "\<lambda>cat. dd_get (group_by_category eps2 dm2) cat"
  have g: "group_by_category eps1 dm1 = group_by_category eps2 dm1"
    unfolding group_by_category_def using assms(4) by (rule group_items_set_cong)
  have m: "map_of (?I1 cat) = map_of (?I2 cat)" for cat
    unfolding g using assms(1-3) by (simp add: map_of_group_by_category fun_eq_iff)
  have d1: "distinct (map fst (?I1 cat))" for cat
    using entries_inv_dd_get [OF cats_inv_group_by_category, of eps1 dm1 cat]
    by (simp add: entries_inv_def)
  have d2: "distinct (map fst (?I2 cat))" for cat
    using entries_inv_dd_get [OF cats_inv_group_by_category, of eps2 dm2 cat]
    by (simp add: entries_inv_def)
  note same = alist_same [OF d1 d2 m]
  show ?thesis
    unfolding build_report_closed by (simp add: same cong: map_cong)
qed

lemma listed_build_report:
  "set (listed (build_report eps dm)) =
     (\<Union>cat \<in> set cat_order. fst ` set (dd_get (group_by_category eps dm) cat))"
  unfolding build_report_closed listed_def
  by (auto simp: comp_def)


lemma keys_group_items:
  assumes "\<forall>(c, I) \<in> set cats. fst ` set I \<subseteq> K" "fst ` set dm \<subseteq> K"
  shows "\<forall>(c, I) \<in> set (group_items eps dm cats). fst ` set I \<subseteq> K"
  using assms
proof (induction dm arbitrary: cats)
  case Nil
  then show ?case by simp
next
  case (Cons item items)
  obtain dep ds where item: "item = (dep, ds)" by (cases item)
  let ?ed = "filter (\<lambda>d. d \<in> set eps) ds"
  let ?cat = "categorize dep"
  let ?new = "AList.update dep ?ed (dd_get cats ?cat)"
  have old: "fst ` set (dd_get cats ?cat) \<subseteq> K"
    using Cons.prems(1) by (rule dd_get_prop) simp
  have "fst ` set ?new \<subseteq> K"
    using old Cons.prems(2) item by (simp add: dom_update)
  then have "\<forall>(c, I) \<in> insert (?cat, ?new) (set cats). fst ` set I \<subseteq> K"
    using Cons.prems(1) by simp
  then have new: "\<forall>(c, I) \<in> set (AList.update ?cat ?new cats). fst ` set I \<subseteq> K"
    using set_update_subset [of ?cat ?new cats] by blast
  have items: "fst ` set items \<subseteq> K" using Cons.prems(2) by auto
  show ?case
    unfolding item using Cons.IH [OF new items] Cons.IH [OF Cons.prems(1) items]
    by (simp add: Let_def)
qed

lemma listed_subset_keys: "set (listed (build_report eps dm)) \<subseteq> fst ` set dm"
proof -
  have "\<forall>(c, I) \<in> set (group_by_category eps dm). fst ` set I \<subseteq> fst ` set dm"
    unfolding group_by_category_def by (rule keys_group_items) simp_all
  then have "fst ` set (dd_get (group_by_category eps dm) cat) \<subseteq> fst ` set dm" for cat
    by (rule dd_get_prop) simp
  then show ?thesis unfolding listed_build_report by blast
qed





section \<open>The dependency map and the report against the specification\<close>



lemma scenario_run:
  "run scenario_pactree scenario_packages =
     [\<lparr>category = ''PYTHON'', packages = 1,
       entries = [(''python'', [''inkscape'', ''libreoffice-fresh''])]\<rparr>]"
  by code_simp

text \<open>Claim C3, as stated for every package of the explicit set: the empty name can be in
  the set (it is, when the package list command prints nothing), and the loop skips it
  before any lookup, so it has no entry whatever its raw dependers are.\<close>

theorem empty_name_counterexample:
  "[] \<in> set scenario_packages
   \<and> kept_dependers scenario_pactree [] = [''python'']
   \<and> map_of (build_dependency_map scenario_pactree scenario_packages) [] = None"
  by code_simp

text \<open>Claim C3, amended: for every package \<open>p\<close> of the explicit set other than the empty
  name, the entry of \<open>p\<close> in the dependency map is the list of its raw dependers after
  stripping, without the empty strings and the entries equal to \<open>p\<close>, duplicates
  preserved; when that list is empty the map has no entry for \<open>p\<close>.\<close>

theorem dependency_map_entry:
  assumes "distinct eps" "p \<in> set eps" "p \<noteq> []"
  shows "map_of (build_dependency_map pactree eps) p =
     (if kept_dependers pactree p = [] then None else Some (kept_dependers pactree p))"
  using assms by (simp add: map_of_build_dependency_map)

theorem dependency_map_entry_witness:
  "distinct scenario_packages \<and> ''python'' \<in> set scenario_packages
   \<and> map_of (build_dependency_map scenario_pactree scenario_packages) ''python''
       = Some [''inkscape'', ''libreoffice-fresh'', ''some-other-tool'', ''inkscape'']
   \<and> ''qt5-base'' \<in> set scenario_packages
   \<and> map_of (build_dependency_map scenario_pactree scenario_packages) ''qt5-base'' = None"
proof -
  have h: "distinct scenario_packages" by code_simp
  have p: "''python'' \<in> set scenario_packages" and q: "''qt5-base'' \<in> set scenario_packages"
    by code_simp+
  have kp: "kept_dependers scenario_pactree ''python''
        = [''inkscape'', ''libreoffice-fresh'', ''some-other-tool'', ''inkscape'']"
    by code_simp
  have kq: "kept_dependers scenario_pactree ''qt5-base'' = []"
    by code_simp
  show ?thesis
    using h p q dependency_map_entry [OF h p, of scenario_pactree]
      dependency_map_entry [OF h q, of scenario_pactree]
    by (simp add: kp kq)
qed

text \<open>Claim C5. Filtering the dependers against the explicit packages a second time, when
  the lines are written, changes nothing: for all inputs the output loop that filters
  once only (\<^const>\<open>build_report_once\<close>) writes the same report as the script's, and
  filtering a sorted, deduplicated, already filtered list of dependers removes no
  element.\<close>

theorem single_filter_same_report:
  "build_report_once eps dm = build_report eps dm
   \<and> filter (\<lambda>d. d \<in> set eps) (sort (remdups (filter (\<lambda>d. d \<in> set eps) dependers)))
       = sort (remdups (filter (\<lambda>d. d \<in> set eps) dependers))"
proof
  show "build_report_once eps dm = build_report eps dm"
    unfolding build_report_closed unfolding build_report_once_def
    by (rule write_sections_once_closed) (rule cats_inv_group_by_category)
  show "filter (\<lambda>d. d \<in> set eps) (sort (remdups (filter (\<lambda>d. d \<in> set eps) dependers)))
       = sort (remdups (filter (\<lambda>d. d \<in> set eps) dependers))"
    by (rule filter_sorted_dependers) auto
qed



text \<open>Claim C7. The report is a function of its inputs as values: two dictionaries with the
  same entries and two sets with the same elements give the same report, section for
  section and line for line, whatever the order in which the dictionary and the set
  hand out their elements.\<close>

theorem report_deterministic:
  assumes "distinct (map fst dm1)" "distinct (map fst dm2)" "map_of dm1 = map_of dm2"
    and "set eps1 = set eps2"
  shows "build_report eps1 dm1 = build_report eps2 dm2"
  using assms by (rule build_report_cong)

theorem report_deterministic_witness:
  "distinct (map fst scenario_map) \<and> distinct (map fst scenario_map_reordered)
   \<and> map_of scenario_map = map_of scenario_map_reordered
   \<and> set scenario_explicit = set scenario_explicit_reordered
   \<and> scenario_map \<noteq> scenario_map_reordered
   \<and> build_report scenario_explicit scenario_map
       = build_report scenario_explicit_reordered scenario_map_reordered"
proof -
  have d1: "distinct (map fst scenario_map)" by code_simp
  have d2: "distinct (map fst scenario_map_reordered)" by code_simp
  have m: "map_of scenario_map = map_of scenario_map_reordered"
    by (rule ext) (simp add: scenario_map_def scenario_map_reordered_def)
  have e: "set scenario_explicit = set scenario_explicit_reordered"
    by (auto simp: scenario_explicit_def scenario_explicit_reordered_def)
  have n: "scenario_map \<noteq> scenario_map_reordered" by code_simp
  from d1 d2 m e n report_deterministic [OF d1 d2 m e] show ?thesis by blast
qed

text \<open>The same for the whole script: the order in which the set of explicit packages is
  traversed does not show in the report.\<close>

theorem run_order_independent:
  assumes "distinct eps1" "distinct eps2" "set eps1 = set eps2"
  shows "run pactree eps1 = run pactree eps2"
proof -
  have "map_of (build_dependency_map pactree eps1) = map_of (build_dependency_map pactree eps2)"
    using assms by (simp add: fun_eq_iff map_of_build_dependency_map)
  with assms show ?thesis
    unfolding run_def
    by (intro build_report_cong distinct_keys_build_dependency_map)
qed

text \<open>Claim C8, as stated with malformed output among the failures: the script tests the
  return code and nothing else, so a usage message printed with return code 0 is read
  as a dependency tree, and the package gets an entry made of its lines after the first.\<close>

theorem malformed_output_counterexample:
  "malformed_pactree ''python''
     = Completed 0 ''usage: pactree options package\<newline>  -r, --reverse\<newline>''
   \<and> map_of (build_dependency_map malformed_pactree [''inkscape'', ''python'']) ''python''
       = Some [''-r, --reverse'']
   \<and> build_dependency_map malformed_pactree [''inkscape'', ''python'']
       \<noteq> build_dependency_map malformed_pactree (removeAll ''python'' [''inkscape'', ''python''])"
  by code_simp

text \<open>Claim C8, amended: when the lookup of a package raises (as on a timeout or on output
  that does not decode) or returns a code other than 0, the package has no entry in the
  dependency map, and the map is the very map built without that package in the loop:
  every other entry is as it would be, and the loop runs to its end.\<close>

theorem failed_lookup_absorbed:
  assumes "failed (pactree p)"
  shows "map_of (build_dependency_map pactree eps) p = None
         \<and> build_dependency_map pactree eps = build_dependency_map pactree (removeAll p eps)"
proof -
  have k: "kept_dependers pactree p = []" using assms by (rule failed_kept_dependers)
  then have same: "build_dependency_map pactree eps = build_dependency_map pactree (removeAll p eps)"
    by (simp add: build_dependency_map_def analyze_skip)
  have "p \<notin> fst ` set (build_dependency_map pactree (removeAll p eps))"
    using keys_build_dependency_map [of pactree "removeAll p eps"] by auto
  then have "map_of (build_dependency_map pactree eps) p = None"
    unfolding same by (simp add: map_of_eq_None_iff)
  with same show ?thesis by simp
qed

theorem failed_lookup_absorbed_witness:
  "failed (scenario_pactree ''inkscape'') \<and> failed (scenario_pactree ''libreoffice-fresh'')
   \<and> map_of (build_dependency_map scenario_pactree scenario_packages) ''inkscape'' = None
   \<and> build_dependency_map scenario_pactree scenario_packages
       = build_dependency_map scenario_pactree (removeAll ''inkscape'' scenario_packages)
   \<and> build_dependency_map scenario_pactree scenario_packages
       = [(''libfoo'', [''nonexplicit-pkg'']),
          (''python'', [''inkscape'', ''libreoffice-fresh'', ''some-other-tool'', ''inkscape''])]"
proof -
  have h: "failed (scenario_pactree ''inkscape'')" by code_simp
  have h': "failed (scenario_pactree ''libreoffice-fresh'')" by code_simp
  have v: "build_dependency_map scenario_pactree scenario_packages
       = [(''libfoo'', [''nonexplicit-pkg'']),
          (''python'', [''inkscape'', ''libreoffice-fresh'', ''some-other-tool'', ''inkscape''])]"
    by code_simp
  from h h' v failed_lookup_absorbed [of scenario_pactree "''inkscape''" scenario_packages, OF h]
  show ?thesis by simp
qed

text \<open>Claim C9. With no explicit package the dependency map has no entry and the report has
  no section; the same holds when the set holds the empty name only, which is what the
  script reads from an empty package list.\<close>

theorem empty_explicit_set:
  "build_dependency_map pactree [] = [] \<and> group_by_category [] [] = []
   \<and> run pactree [] = []
   \<and> build_dependency_map pactree [[]] = [] \<and> run pactree [[]] = []"
  by (simp add: build_dependency_map_def run_def build_report_def write_output_def
      group_by_category_def cat_order_def)

text \<open>Claim C10. Every key of the dependency map is a non-empty name of the explicit set;
  the empty name is skipped without a lookup, so what the command would answer for it
  does not matter; and every dependency listed in the report is a non-empty name of the
  explicit set.\<close>

theorem dependency_keys_explicit:
  "(k \<in> fst ` set (build_dependency_map pactree eps) \<longrightarrow> k \<noteq> [] \<and> k \<in> set eps)
   \<and> build_dependency_map (pactree([] := r)) eps = build_dependency_map pactree eps
   \<and> (dep \<in> set (listed (run pactree eps)) \<longrightarrow> dep \<noteq> [] \<and> dep \<in> set eps)"
proof (intro conjI impI)
  assume "k \<in> fst ` set (build_dependency_map pactree eps)"
  then show "k \<noteq> []" "k \<in> set eps"
    using keys_build_dependency_map [of pactree eps] by auto
next
  show "build_dependency_map (pactree([] := r)) eps = build_dependency_map pactree eps"
    by (simp add: build_dependency_map_def analyze_empty_name)
next
  assume "dep \<in> set (listed (run pactree eps))"
  then have "dep \<in> fst ` set (build_dependency_map pactree eps)"
    unfolding run_def using listed_subset_keys by blast
  then show "dep \<noteq> []" "dep \<in> set eps"
    using keys_build_dependency_map [of pactree eps] by auto
qed

theorem dependency_keys_explicit_witness:
  "[] \<in> set scenario_packages
   \<and> ''python'' \<in> fst ` set (build_dependency_map scenario_pactree scenario_packages)
   \<and> ''python'' \<in> set scenario_packages
   \<and> [] \<notin> fst ` set (build_dependency_map scenario_pactree scenario_packages)
   \<and> listed (run scenario_pactree scenario_packages) = [''python'']"
proof -
  have e: "[] \<in> set scenario_packages" by code_simp
  have k: "''python'' \<in> fst ` set (build_dependency_map scenario_pactree scenario_packages)"
    by code_simp
  have l: "listed (run scenario_pactree scenario_packages) = [''python'']" by code_simp
  from dependency_keys_explicit [of "''python''" scenario_pactree scenario_packages]
    dependency_keys_explicit [of "[]" scenario_pactree scenario_packages]
    e k l
  show ?thesis by blast
qed

end
